theory Spec2Isabelle
  imports Complex_Main
begin

section \<open>Narration timing and frame/audio synchronisation\<close>

text \<open>
  A shallow embedding of the timing utilities (\<^verbatim>\<open>utils/timing.ts\<close>) and of the audio
  and timing steps of the video stage (\<^verbatim>\<open>stages/video.ts\<close>).

  JavaScript numbers are modelled as exact reals: rounding of IEEE doubles is outside the
  model. A JavaScript string is the list of its UTF-16 code units, each a natural number.
  Counts (\<^verbatim>\<open>frameCount\<close>, array lengths, indices) are natural numbers.
\<close>

subsection \<open>Strings\<close>

type_synonym jsstring = "nat list"

text \<open>String literals of the source, as code units.\<close>

definition js :: "string \<Rightarrow> jsstring" where
  "js s = map of_char s"

text \<open>
  The class \<^verbatim>\<open>\s\<close> of a regular expression, which is also what \<^verbatim>\<open>trim()\<close> strips:
  WhiteSpace (TAB, VT, FF, SP, NBSP, ZWNBSP and the category Zs) and LineTerminator
  (LF, CR, LS, PS).
\<close>

definition isWhiteSpace :: "nat \<Rightarrow> bool" where
  "isWhiteSpace c =
     (c \<in> {9, 10, 11, 12, 13, 32, 160, 5760, 8232, 8233, 8239, 8287, 12288, 65279}
      \<or> (8192 \<le> c \<and> c \<le> 8202))"

text \<open>The class \<^verbatim>\<open>\d\<close>: the ASCII digits.\<close>

definition isDigit :: "nat \<Rightarrow> bool" where
  "isDigit c = (48 \<le> c \<and> c \<le> 57)"

text \<open>\<^verbatim>\<open>String.prototype.trim\<close>.\<close>

definition trim :: "jsstring \<Rightarrow> jsstring" where
  "trim s = rev (dropWhile isWhiteSpace (rev (dropWhile isWhiteSpace s)))"

text \<open>
  \<^verbatim>\<open>s.split(/\s+/)\<close>: the scan of the split algorithm. At each position the pattern is
  tried; a match is the longest run of white space there, it closes the current piece and
  the scan resumes after the run. The end of the string closes the last piece, so the
  empty string gives one empty piece.
\<close>

function splitWsLoop :: "jsstring \<Rightarrow> jsstring \<Rightarrow> jsstring list" where
  "splitWsLoop piece [] = [piece]"
| "splitWsLoop piece (c # cs) =
     (if isWhiteSpace c then piece # splitWsLoop [] (dropWhile isWhiteSpace cs)
      else splitWsLoop (piece @ [c]) cs)"
  by pat_completeness auto
termination
  by (relation "measure (\<lambda>(piece, s). length s)")
     (auto simp: le_imp_less_Suc length_dropWhile_le)

definition splitWs :: "jsstring \<Rightarrow> jsstring list" where
  "splitWs s = splitWsLoop [] s"

subsection \<open>Speech-duration estimator\<close>

datatype style = Beginner | Technical | Overview

definition wpm :: "style \<Rightarrow> real" where
  "wpm st = (if st = Beginner then 130 else if st = Overview then 170 else 150)"

text \<open>\<^verbatim>\<open>text.trim().split(/\s+/).length\<close>\<close>

definition wordCount :: "jsstring \<Rightarrow> nat" where
  "wordCount txt = length (splitWs (trim txt))"

definition calculateSpeakingDuration :: "jsstring \<Rightarrow> style \<Rightarrow> real" where
  "calculateSpeakingDuration txt st =
     (let words = wordCount txt;
          duration = (real words / wpm st) * 60
      in max 2 duration)"

subsection \<open>Silence markers\<close>

text \<open>
  The pattern \<^verbatim>\<open>\[\[slnc (\d+)\]\]\<close> tried at the start of a string: the seven code units
  \<^verbatim>\<open>[[slnc \<close>, then the digits, then \<^verbatim>\<open>]]\<close>. The digit group is greedy, and giving digits
  back never helps, since what follows must be \<^verbatim>\<open>]\<close>; so the match, when there is one,
  takes the longest run of digits. The result is the captured group and the rest of the
  string after the match.
\<close>

definition markerAt :: "jsstring \<Rightarrow> (jsstring \<times> jsstring) option" where
  "markerAt s =
     (if take 7 s = js ''[[slnc '' then
        (let ds = takeWhile isDigit (drop 7 s);
             r = dropWhile isDigit (drop 7 s)
         in if ds \<noteq> [] \<and> take 2 r = js '']]'' then Some (ds, drop 2 r) else None)
      else None)"

lemma markerAt_shorter: "markerAt s = Some (ds, rest) \<Longrightarrow> length rest < length s"
proof -
  assume a: "markerAt s = Some (ds, rest)"
  have t: "take 7 s = js ''[[slnc ''"
    using a by (auto simp: markerAt_def split: if_splits)
  have "length (take 7 s) = 7"
    unfolding t by (simp add: js_def)
  then have l: "7 \<le> length s"
    by simp
  have "rest = drop 2 (dropWhile isDigit (drop 7 s))"
    using a by (auto simp: markerAt_def Let_def split: if_splits)
  then have "length rest \<le> length (dropWhile isDigit (drop 7 s))"
    by simp
  also have "\<dots> \<le> length (drop 7 s)"
    by (rule length_dropWhile_le)
  also have "\<dots> < length s"
    using l by simp
  finally show ?thesis .
qed

text \<open>
  \<^verbatim>\<open>parseInt\<close> on a captured group, which is a non-empty string of ASCII digits: its
  decimal value.
\<close>

definition parseInt :: "jsstring \<Rightarrow> nat" where
  "parseInt ds = foldl (\<lambda>v c. 10 * v + (c - 48)) 0 ds"

text \<open>
  The loop \<^verbatim>\<open>while ((match = silenceRegex.exec(text)) !== null)\<close> of a global pattern:
  each call searches from where the last match ended. The state of the loop is the text
  still to search and the running total.
\<close>

function execLoop :: "jsstring \<Rightarrow> real \<Rightarrow> real" where
  "execLoop [] totalSilence = totalSilence"
| "execLoop (c # cs) totalSilence =
     (case markerAt (c # cs) of
        Some (ds, rest) \<Rightarrow> execLoop rest (totalSilence + real (parseInt ds) / 1000)
      | None \<Rightarrow> execLoop cs totalSilence)"
  by pat_completeness auto
termination
  by (relation "measure (\<lambda>(s, t). length s)") (auto dest: markerAt_shorter)

text \<open>\<^verbatim>\<open>text.replace(silenceRegex, '')\<close>: every match, found left to right, is left out.\<close>

function removeMarkers :: "jsstring \<Rightarrow> jsstring" where
  "removeMarkers [] = []"
| "removeMarkers (c # cs) =
     (case markerAt (c # cs) of
        Some (ds, rest) \<Rightarrow> removeMarkers rest
      | None \<Rightarrow> c # removeMarkers cs)"
  by pat_completeness auto
termination
  by (relation "measure length") (auto dest: markerAt_shorter)

record parsed =
  cleanText :: jsstring
  totalSilence :: real

definition parseSilenceMarkers :: "jsstring \<Rightarrow> parsed" where
  "parseSilenceMarkers txt =
     \<lparr>cleanText = removeMarkers txt, totalSilence = execLoop txt 0\<rparr>"

definition calculateTotalDuration :: "jsstring \<Rightarrow> style \<Rightarrow> real" where
  "calculateTotalDuration txt st =
     (let p = parseSilenceMarkers txt;
          speakingDuration = calculateSpeakingDuration (cleanText p) st
      in speakingDuration + totalSilence p)"

subsection \<open>Timing segments\<close>

text \<open>The field \<^verbatim>\<open>text\<close> of the source is \<open>segText\<close> here.\<close>

record NarrationTiming =
  segText :: jsstring
  startTime :: real
  duration :: real

text \<open>
  \<^verbatim>\<open>narration.split(/(\[\[slnc \d+\]\])/)\<close>: the pieces between the matches, and after
  each piece but the last the captured group, which is the whole matched marker.
\<close>

function splitMarkersLoop :: "jsstring \<Rightarrow> jsstring \<Rightarrow> jsstring list" where
  "splitMarkersLoop piece [] = [piece]"
| "splitMarkersLoop piece (c # cs) =
     (case markerAt (c # cs) of
        Some (ds, rest) \<Rightarrow>
          piece # take (length (c # cs) - length rest) (c # cs) # splitMarkersLoop [] rest
      | None \<Rightarrow> splitMarkersLoop (piece @ [c]) cs)"
  by pat_completeness auto
termination
  by (relation "measure (\<lambda>(piece, s). length s)") (auto dest: markerAt_shorter)

definition splitMarkers :: "jsstring \<Rightarrow> jsstring list" where
  "splitMarkers s = splitMarkersLoop [] s"

text \<open>
  \<^verbatim>\<open>part.match(/\[\[slnc (\d+)\]\]/)\<close>, not global: the first match anywhere in the part,
  of which the code reads the captured group.
\<close>

fun matchMarker :: "jsstring \<Rightarrow> jsstring option" where
  "matchMarker [] = None"
| "matchMarker (c # cs) =
     (case markerAt (c # cs) of
        Some (ds, rest) \<Rightarrow> Some ds
      | None \<Rightarrow> matchMarker cs)"

text \<open>The loop over the parts, with \<open>currentTime\<close> and the segments pushed so far.\<close>

fun segmentLoop ::
  "style \<Rightarrow> jsstring list \<Rightarrow> real \<Rightarrow> NarrationTiming list \<Rightarrow> NarrationTiming list" where
  "segmentLoop st [] currentTime segments = segments"
| "segmentLoop st (part # parts) currentTime segments =
     (case matchMarker part of
        Some ds \<Rightarrow>
          (let silenceDuration = real (parseInt ds) / 1000
           in segmentLoop st parts (currentTime + silenceDuration)
                (segments @ [\<lparr>segText = [], startTime = currentTime, duration = silenceDuration\<rparr>]))
      | None \<Rightarrow>
          (if trim part \<noteq> [] then
             (let d = calculateSpeakingDuration part st
              in segmentLoop st parts (currentTime + d)
                   (segments @ [\<lparr>segText = trim part, startTime = currentTime, duration = d\<rparr>]))
           else segmentLoop st parts currentTime segments))"

definition createTimingSegments :: "jsstring \<Rightarrow> style \<Rightarrow> NarrationTiming list" where
  "createTimingSegments narration st = segmentLoop st (splitMarkers narration) 0 []"

subsection \<open>Frame durations\<close>

text \<open>\<^verbatim>\<open>xs.slice(startIdx, endIdx)\<close> for indices that are not negative.\<close>

definition slice :: "'a list \<Rightarrow> nat \<Rightarrow> nat \<Rightarrow> 'a list" where
  "slice xs startIdx endIdx = drop startIdx (take endIdx xs)"

text \<open>\<^verbatim>\<open>segs.reduce((sum, seg) => sum + seg.duration, 0)\<close>\<close>

definition sumDurations :: "NarrationTiming list \<Rightarrow> real" where
  "sumDurations segs = foldl (\<lambda>sum seg. sum + duration seg) 0 segs"

function evenLoop :: "nat \<Rightarrow> nat \<Rightarrow> real \<Rightarrow> real list \<Rightarrow> real list" where
  "evenLoop i frameCount durationPerFrame frameDurations =
     (if i < frameCount
      then evenLoop (i + 1) frameCount durationPerFrame (frameDurations @ [durationPerFrame])
      else frameDurations)"
  by pat_completeness auto
termination
  by (relation "measure (\<lambda>(i, frameCount, d, acc). frameCount - i)") auto

function groupLoop ::
  "nat \<Rightarrow> nat \<Rightarrow> nat \<Rightarrow> NarrationTiming list \<Rightarrow> real list \<Rightarrow> real list" where
  "groupLoop i frameCount segmentsPerFrame audioSegments frameDurations =
     (if i < frameCount then
        (let startIdx = i * segmentsPerFrame;
             endIdx = min ((i + 1) * segmentsPerFrame) (length audioSegments);
             segments = slice audioSegments startIdx endIdx;
             d = sumDurations segments
         in groupLoop (i + 1) frameCount segmentsPerFrame audioSegments (frameDurations @ [d]))
      else frameDurations)"
  by pat_completeness auto
termination
  by (relation "measure (\<lambda>(i, frameCount, spf, segs, acc). frameCount - i)") auto

definition calculateFrameDurations :: "nat \<Rightarrow> NarrationTiming list \<Rightarrow> real list" where
  "calculateFrameDurations frameCount audioSegments =
     (if frameCount = 0 then []
      else if length audioSegments = 0 then replicate frameCount 3
      else if frameCount > length audioSegments then
        (let segmentDuration = sumDurations audioSegments;
             durationPerFrame = segmentDuration / real frameCount
         in evenLoop 0 frameCount durationPerFrame [])
      else
        (let segmentsPerFrame = nat \<lceil>real (length audioSegments) / real frameCount\<rceil>
         in groupLoop 0 frameCount segmentsPerFrame audioSegments []))"

text \<open>The duration the grouping loop pushes for frame \<open>k\<close> (the body of \<open>groupLoop\<close>).\<close>

definition groupDuration :: "nat \<Rightarrow> NarrationTiming list \<Rightarrow> nat \<Rightarrow> real" where
  "groupDuration spf segs k =
     sumDurations (slice segs (k * spf) (min ((k + 1) * spf) (length segs)))"

text \<open>
  A timeline that starts at \<open>t\<close>: every segment starts where the one before it ends.
  Used to state the invariant of \<open>segmentLoop\<close>.
\<close>

fun timelineFrom :: "real \<Rightarrow> NarrationTiming list \<Rightarrow> bool" where
  "timelineFrom t [] = True"
| "timelineFrom t (s # ss) = (startTime s = t \<and> timelineFrom (t + duration s) ss)"

subsection \<open>The pieces of a narrative\<close>

text \<open>
  The array that \<open>splitMarkers\<close> returns alternates: the texts outside the markers at the
  even positions, the markers at the odd ones.
\<close>

fun textsOf :: "'a list \<Rightarrow> 'a list" where
  "textsOf [] = []"
| "textsOf [x] = [x]"
| "textsOf (x # y # zs) = x # textsOf zs"

fun markersOf :: "'a list \<Rightarrow> 'a list" where
  "markersOf [] = []"
| "markersOf [x] = []"
| "markersOf (x # y # zs) = y # markersOf zs"

text \<open>
  A beginning of a marker: a string that is not empty, is not a whole marker, and becomes
  one when more is appended (\<open>markerPrefix_iff\<close> below), such as \<^verbatim>\<open>[\<close>, \<^verbatim>\<open>[[slnc \<close>,
  \<^verbatim>\<open>[[slnc 12\<close> or \<^verbatim>\<open>[[slnc 12]\<close>. A text ends open when one of its suffixes is such a
  beginning.
\<close>

definition markerPrefix :: "jsstring \<Rightarrow> bool" where
  "markerPrefix u =
     (u \<noteq> [] \<and>
      (if length u \<le> 7 then u = take (length u) (js ''[[slnc '')
       else take 7 u = js ''[[slnc '' \<and>
            (dropWhile isDigit (drop 7 u) = [] \<or>
             (takeWhile isDigit (drop 7 u) \<noteq> [] \<and> dropWhile isDigit (drop 7 u) = js '']''))))"

fun endsOpen :: "jsstring \<Rightarrow> bool" where
  "endsOpen [] = False"
| "endsOpen (c # cs) = (markerPrefix (c # cs) \<or> endsOpen cs)"



subsection \<open>The audio and timing steps of the video stage\<close>

text \<open>
  What the collaborators do is an input of the model: the outcome of the speech
  synthesis (\<^verbatim>\<open>tts.generateAudio\<close>, which returns nothing or throws) and the outcome of
  \<^verbatim>\<open>fs.stat\<close> on the audio file (the size of the file, or an error when it is missing).
\<close>

datatype error = SynthesisFailed | FileMissing

text \<open>
  \<^verbatim>\<open>AudioGenerator.generateAudio\<close>: an error of the synthesis propagates; otherwise the
  result carries the estimated duration (and the output path, which is not modelled).
\<close>

definition generateAudio :: "error + unit \<Rightarrow> jsstring \<Rightarrow> style \<Rightarrow> error + real" where
  "generateAudio tts narrationText st =
     (case tts of
        Inl e \<Rightarrow> Inl e
      | Inr u \<Rightarrow> Inr (calculateTotalDuration narrationText st))"

text \<open>\<^verbatim>\<open>AudioGenerator.validateAudio\<close>: catches the error of \<^verbatim>\<open>fs.stat\<close>.\<close>

definition validateAudio :: "error + nat \<Rightarrow> bool" where
  "validateAudio stat = (case stat of Inl e \<Rightarrow> False | Inr sz \<Rightarrow> sz > 0)"

record audioState =
  audioDuration :: real
  hasAudio :: bool

text \<open>
  Step 2 of \<^verbatim>\<open>generateVideo\<close>: \<open>audioDuration\<close> starts at 0 and \<open>hasAudio\<close> at false; the
  \<^verbatim>\<open>try\<close> block assigns both, and the \<^verbatim>\<open>catch\<close> block sets \<open>hasAudio\<close> to false and goes
  on. The step has no error result.
\<close>

definition audioStep :: "error + unit \<Rightarrow> error + nat \<Rightarrow> jsstring \<Rightarrow> style \<Rightarrow> audioState" where
  "audioStep tts stat fullNarrative st =
     (case generateAudio tts fullNarrative st of
        Inr d \<Rightarrow> \<lparr>audioDuration = d, hasAudio = validateAudio stat\<rparr>
      | Inl e \<Rightarrow> \<lparr>audioDuration = 0, hasAudio = False\<rparr>)"

text \<open>The default durations: \<^verbatim>\<open>htmlFrames.map((_, i) => ...)\<close> over \<open>n\<close> frames.\<close>

definition defaultDurations :: "nat \<Rightarrow> real list" where
  "defaultDurations n = map (\<lambda>i. if i = 0 \<or> int i = int n - 1 then 3 else 5) [0..<n]"

text \<open>Step 3 of \<^verbatim>\<open>generateVideo\<close>, for \<open>n\<close> HTML frames.\<close>

definition timingStep :: "audioState \<Rightarrow> nat \<Rightarrow> jsstring \<Rightarrow> style \<Rightarrow> real list" where
  "timingStep a n fullNarrative st =
     (if hasAudio a \<and> audioDuration a > 0 then
        (let segments = createTimingSegments fullNarrative st
         in calculateFrameDurations n segments)
      else defaultDurations n)"

section \<open>Properties\<close>

subsection \<open>Speech-duration estimator\<close>

lemma calculateSpeakingDuration_eq:
  "calculateSpeakingDuration txt st = max 2 (real (wordCount txt) / wpm st * 60)"
  by (simp add: calculateSpeakingDuration_def Let_def)

text \<open>
  Claim C9. For every style and every text of at most three words (as the code counts
  them), \<open>calculateSpeakingDuration\<close> returns exactly 2.
\<close>

theorem duration_floor:
  assumes "wordCount txt \<le> 3"
  shows "calculateSpeakingDuration txt st = 2"
proof -
  have w: "real (wordCount txt) \<le> 3"
    using assms by simp
  have "real (wordCount txt) / wpm st * 60 \<le> 2"
  proof (cases st)
    case Beginner
    then show ?thesis using w by (simp add: wpm_def)
  next
    case Technical
    then show ?thesis using w by (simp add: wpm_def)
  next
    case Overview
    then show ?thesis using w by (simp add: wpm_def)
  qed
  then show ?thesis
    by (simp add: calculateSpeakingDuration_eq)
qed

lemma wordCount_three: "wordCount (js ''one  two three '') = 3"
  by (simp add: wordCount_def splitWs_def trim_def js_def isWhiteSpace_def)

theorem duration_floor_witness:
  "wordCount (js ''one  two three '') \<le> 3
   \<and> calculateSpeakingDuration (js ''one  two three '') Beginner = 2
   \<and> calculateSpeakingDuration (js ''one  two three '') Technical = 2
   \<and> calculateSpeakingDuration (js ''one  two three '') Overview = 2"
proof -
  have h: "wordCount (js ''one  two three '') \<le> 3"
    by (simp add: wordCount_three)
  show ?thesis
    using h duration_floor [OF h, of Beginner] duration_floor [OF h, of Technical]
      duration_floor [OF h, of Overview]
    by simp
qed

lemma exceeds_floor_iff:
  "(\<forall>st. 2 * wpm st / 60 < real (wordCount txt)) \<longleftrightarrow> 6 \<le> wordCount txt"
proof
  assume "\<forall>st. 2 * wpm st / 60 < real (wordCount txt)"
  then have "2 * wpm Overview / 60 < real (wordCount txt)"
    by (rule spec)
  then have "5 < real (wordCount txt)"
    by (simp add: wpm_def)
  then show "6 \<le> wordCount txt"
    by simp
next
  assume "6 \<le> wordCount txt"
  then have "6 \<le> real (wordCount txt)"
    by simp
  then show "\<forall>st. 2 * wpm st / 60 < real (wordCount txt)"
    by (simp add: wpm_def)
qed

text \<open>
  Claim C8. For every text whose word count exceeds the floor threshold, the duration at
  the beginner rate is strictly greater than the one at the technical rate, which is
  strictly greater than the one at the overview rate. The floor threshold of a style is
  the word count \<open>2 * wpm / 60\<close> at which the estimate \<open>words / wpm * 60\<close> is the floor of
  2 seconds: 4.33 words for beginner, 5 for technical, 5.67 for overview. The word count
  is to exceed it for each of the three styles, which it does from six words on.
\<close>

theorem rate_monotonicity:
  assumes "\<forall>st. 2 * wpm st / 60 < real (wordCount txt)"
  shows "calculateSpeakingDuration txt Beginner > calculateSpeakingDuration txt Technical
       \<and> calculateSpeakingDuration txt Technical > calculateSpeakingDuration txt Overview"
proof -
  define w where "w = real (wordCount txt)"
  have "6 \<le> wordCount txt"
    using assms by (simp only: exceeds_floor_iff)
  then have w6: "6 \<le> w"
    by (simp add: w_def)
  have b: "calculateSpeakingDuration txt Beginner = w / 130 * 60"
    using w6 by (simp add: calculateSpeakingDuration_eq wpm_def w_def max_def)
  have t: "calculateSpeakingDuration txt Technical = w / 150 * 60"
    using w6 by (simp add: calculateSpeakingDuration_eq wpm_def w_def max_def)
  have ov: "calculateSpeakingDuration txt Overview = w / 170 * 60"
    using w6 by (simp add: calculateSpeakingDuration_eq wpm_def w_def max_def)
  show ?thesis
    using w6 by (simp add: b t ov)
qed

lemma wordCount_six: "wordCount (js ''a b c d e f'') = 6"
  by (simp add: wordCount_def splitWs_def trim_def js_def isWhiteSpace_def)

theorem rate_monotonicity_witness:
  "(\<forall>st. 2 * wpm st / 60 < real (wordCount (js ''a b c d e f'')))
   \<and> calculateSpeakingDuration (js ''a b c d e f'') Beginner = 36 / 13
   \<and> calculateSpeakingDuration (js ''a b c d e f'') Technical = 12 / 5
   \<and> calculateSpeakingDuration (js ''a b c d e f'') Overview = 36 / 17
   \<and> calculateSpeakingDuration (js ''a b c d e f'') Beginner
       > calculateSpeakingDuration (js ''a b c d e f'') Technical
   \<and> calculateSpeakingDuration (js ''a b c d e f'') Technical
       > calculateSpeakingDuration (js ''a b c d e f'') Overview"
proof -
  have h: "\<forall>st. 2 * wpm st / 60 < real (wordCount (js ''a b c d e f''))"
    by (simp add: wordCount_six wpm_def)
  show ?thesis
    using h rate_monotonicity [OF h]
    by (simp add: calculateSpeakingDuration_eq wordCount_six wpm_def)
qed

text \<open>
  Below that threshold the ordering is not strict: at five words the technical and the
  overview duration are both 2.
\<close>

lemma not_strict_at_five_words:
  "wordCount (js ''one two three four five'') = 5
   \<and> \<not> (calculateSpeakingDuration (js ''one two three four five'') Beginner
          > calculateSpeakingDuration (js ''one two three four five'') Technical
        \<and> calculateSpeakingDuration (js ''one two three four five'') Technical
          > calculateSpeakingDuration (js ''one two three four five'') Overview)"
proof -
  have w: "wordCount (js ''one two three four five'') = 5"
    by (simp add: wordCount_def splitWs_def trim_def js_def isWhiteSpace_def)
  show ?thesis
    by (simp add: w calculateSpeakingDuration_eq wpm_def)
qed

subsection \<open>Strings without a marker\<close>

lemma markerAt_head: "markerAt (c # cs) = Some (ds, rest) \<Longrightarrow> c = 91"
  by (auto simp: markerAt_def js_def split: if_splits)

lemma matchMarker_None_Cons:
  "matchMarker (c # cs) = None \<Longrightarrow> markerAt (c # cs) = None \<and> matchMarker cs = None"
  by (auto split: option.splits)

lemma execLoop_no_marker: "matchMarker s = None \<Longrightarrow> execLoop s t = t"
proof (induction s)
  case Nil
  show ?case by simp
next
  case (Cons c cs)
  then show ?case
    using matchMarker_None_Cons [OF Cons.prems] by simp
qed

lemma removeMarkers_no_marker: "matchMarker s = None \<Longrightarrow> removeMarkers s = s"
proof (induction s)
  case Nil
  show ?case by simp
next
  case (Cons c cs)
  then show ?case
    using matchMarker_None_Cons [OF Cons.prems] by simp
qed

lemma splitMarkersLoop_no_marker:
  "matchMarker s = None \<Longrightarrow> splitMarkersLoop piece s = [piece @ s]"
proof (induction s arbitrary: piece)
  case Nil
  show ?case by simp
next
  case (Cons c cs)
  then show ?case
    using matchMarker_None_Cons [OF Cons.prems] by simp
qed

lemma matchMarker_no_bracket: "91 \<notin> set s \<Longrightarrow> matchMarker s = None"
proof (induction s)
  case Nil
  show ?case by simp
next
  case (Cons c cs)
  have "markerAt (c # cs) = None"
  proof (cases "markerAt (c # cs)")
    case None
    then show ?thesis .
  next
    case (Some p)
    then have "c = 91"
      by (cases p) (auto dest: markerAt_head)
    then show ?thesis
      using Cons.prems by simp
  qed
  then show ?case
    using Cons by simp
qed

subsection \<open>The marker pattern and the pieces of a split\<close>

lemma length_marker_open: "length (js ''[[slnc '') = 7"
  by (simp add: js_def)

lemma not_digit_close: "\<not> isDigit 93"
  by (simp add: isDigit_def)

lemma marker_close: "js '']]'' = [93, 93]"
  by (simp add: js_def)

lemma markerAt_SomeD:
  assumes "markerAt s = Some (ds, rest)"
  shows "s = js ''[[slnc '' @ ds @ js '']]'' @ rest" and "ds \<noteq> []" and "\<forall>d\<in>set ds. isDigit d"
proof -
  have t: "take 7 s = js ''[[slnc ''"
    using assms by (auto simp: markerAt_def split: if_splits)
  have d: "ds = takeWhile isDigit (drop 7 s)"
    using assms by (auto simp: markerAt_def Let_def split: if_splits)
  have q: "take 2 (dropWhile isDigit (drop 7 s)) = js '']]''"
    using assms by (auto simp: markerAt_def Let_def split: if_splits)
  have r: "rest = drop 2 (dropWhile isDigit (drop 7 s))"
    using assms by (auto simp: markerAt_def Let_def split: if_splits)
  show "ds \<noteq> []"
    using assms by (auto simp: markerAt_def Let_def split: if_splits)
  show "\<forall>d\<in>set ds. isDigit d"
    unfolding d by (auto dest: set_takeWhileD)
  have "s = take 7 s @ drop 7 s"
    by simp
  also have "drop 7 s = takeWhile isDigit (drop 7 s) @ dropWhile isDigit (drop 7 s)"
    by simp
  also have "dropWhile isDigit (drop 7 s)
      = take 2 (dropWhile isDigit (drop 7 s)) @ drop 2 (dropWhile isDigit (drop 7 s))"
    by simp
  finally show "s = js ''[[slnc '' @ ds @ js '']]'' @ rest"
    unfolding t d q r .
qed

lemma markerAt_SomeI:
  assumes "ds \<noteq> []" and "\<forall>d\<in>set ds. isDigit d"
  shows "markerAt (js ''[[slnc '' @ ds @ js '']]'' @ rest) = Some (ds, rest)"
proof -
  have tw: "takeWhile isDigit (ds @ js '']]'' @ rest) = ds"
    using assms(2) by (simp add: takeWhile_append2 marker_close not_digit_close)
  have dw: "dropWhile isDigit (ds @ js '']]'' @ rest) = js '']]'' @ rest"
    using assms(2) by (simp add: dropWhile_append2 marker_close not_digit_close)
  have l2: "length (js '']]'') = 2"
    by (simp add: marker_close)
  show ?thesis
    using assms(1) by (simp add: markerAt_def length_marker_open tw dw l2)
qed

lemma markerAt_extend:
  assumes "markerAt u = Some (ds, r)"
  shows "markerAt (u @ v) = Some (ds, r @ v)"
proof -
  have "u @ v = js ''[[slnc '' @ ds @ js '']]'' @ (r @ v)"
    using markerAt_SomeD(1) [OF assms] by simp
  then show ?thesis
    using markerAt_SomeI [OF markerAt_SomeD(2) [OF assms] markerAt_SomeD(3) [OF assms], of "r @ v"]
    by simp
qed

lemma marker_piece:
  assumes "markerAt s = Some (ds, rest)"
  shows "take (length s - length rest) s = js ''[[slnc '' @ ds @ js '']]''"
proof -
  define m where "m = js ''[[slnc '' @ ds @ js '']]''"
  have s: "s = m @ rest"
    using markerAt_SomeD(1) [OF assms] by (simp add: m_def)
  have "take (length (m @ rest) - length rest) (m @ rest) = m"
    by simp
  then show ?thesis
    unfolding s m_def .
qed

lemma markerAt_marker_piece:
  assumes "markerAt s = Some (ds, rest)"
  shows "markerAt (take (length s - length rest) s) = Some (ds, [])"
  using markerAt_SomeI [OF markerAt_SomeD(2) [OF assms] markerAt_SomeD(3) [OF assms], of "[]"]
  by (simp add: marker_piece [OF assms])


text \<open>The parts put together are the string, and the texts put together are the clean text.\<close>

lemma concat_splitMarkersLoop: "concat (splitMarkersLoop piece s) = piece @ s"
proof (induction piece s rule: splitMarkersLoop.induct)
  case (1 piece)
  show ?case by simp
next
  case (2 piece c cs)
  show ?case
  proof (cases "markerAt (c # cs)")
    case None
    then show ?thesis
      using 2 by simp
  next
    case (Some p)
    obtain ds rest where p: "p = (ds, rest)"
      by (cases p)
    have m: "markerAt (c # cs) = Some (ds, rest)"
      using Some p by simp
    have "take (length (c # cs) - length rest) (c # cs) @ rest = c # cs"
      using markerAt_SomeD(1) [OF m] marker_piece [OF m] by simp
    then show ?thesis
      using "2.IH"(2) [OF m refl] m by simp
  qed
qed

lemma removeMarkers_texts:
  "concat (textsOf (splitMarkersLoop piece s)) = piece @ removeMarkers s"
proof (induction piece s rule: splitMarkersLoop.induct)
  case (1 piece)
  show ?case by simp
next
  case (2 piece c cs)
  show ?case
  proof (cases "markerAt (c # cs)")
    case None
    then show ?thesis
      using 2 by simp
  next
    case (Some p)
    obtain ds rest where p: "p = (ds, rest)"
      by (cases p)
    have m: "markerAt (c # cs) = Some (ds, rest)"
      using Some p by simp
    show ?thesis
      using "2.IH"(2) [OF m refl] m by simp
  qed
qed

lemma matchMarker_NoneI:
  "(\<And>k. k < length p \<Longrightarrow> markerAt (drop k p) = None) \<Longrightarrow> matchMarker p = None"
proof (induction p)
  case Nil
  show ?case by simp
next
  case (Cons c cs)
  have "markerAt (c # cs) = None"
    using Cons.prems [of 0] by simp
  moreover have "matchMarker cs = None"
  proof (rule Cons.IH)
    fix k
    assume "k < length cs"
    then show "markerAt (drop k cs) = None"
      using Cons.prems [of "Suc k"] by simp
  qed
  ultimately show ?case
    by simp
qed

lemma text_pieces_no_marker:
  assumes "\<And>k. k < length piece \<Longrightarrow> markerAt (drop k piece @ s) = None"
  shows "\<forall>p\<in>set (textsOf (splitMarkersLoop piece s)). matchMarker p = None"
  using assms
proof (induction piece s rule: splitMarkersLoop.induct)
  case (1 piece)
  have "matchMarker piece = None"
    using "1.prems" by (intro matchMarker_NoneI) simp
  then show ?case
    by simp
next
  case (2 piece c cs)
  show ?case
  proof (cases "markerAt (c # cs)")
    case None
    have "\<forall>p\<in>set (textsOf (splitMarkersLoop (piece @ [c]) cs)). matchMarker p = None"
    proof (rule "2.IH"(1) [OF None])
      fix k
      assume k: "k < length (piece @ [c])"
      show "markerAt (drop k (piece @ [c]) @ cs) = None"
      proof (cases "k < length piece")
        case True
        then show ?thesis
          using "2.prems" [of k] by simp
      next
        case False
        then have "k = length piece"
          using k by simp
        then show ?thesis
          using None by simp
      qed
    qed
    then show ?thesis
      using None by simp
  next
    case (Some q)
    obtain ds rest where q: "q = (ds, rest)"
      by (cases q)
    have m: "markerAt (c # cs) = Some (ds, rest)"
      using Some q by simp
    have "matchMarker piece = None"
    proof (rule matchMarker_NoneI)
      fix k
      assume k: "k < length piece"
      show "markerAt (drop k piece) = None"
      proof (cases "markerAt (drop k piece)")
        case None
        then show ?thesis .
      next
        case (Some x)
        then have "markerAt (drop k piece @ c # cs) = Some (fst x, snd x @ c # cs)"
          by (intro markerAt_extend) simp
        then show ?thesis
          using "2.prems" [OF k] by simp
      qed
    qed
    moreover have "\<forall>p\<in>set (textsOf (splitMarkersLoop [] rest)). matchMarker p = None"
      by (rule "2.IH"(2) [OF m refl]) simp
    ultimately show ?thesis
      using m by simp
  qed
qed

lemma splitMarkers_texts_no_marker:
  "\<forall>p\<in>set (textsOf (splitMarkers s)). matchMarker p = None"
  unfolding splitMarkers_def by (rule text_pieces_no_marker) simp

lemma splitMarkers_markers:
  "\<forall>m\<in>set (markersOf (splitMarkersLoop piece s)). \<exists>ds. markerAt m = Some (ds, [])"
proof (induction piece s rule: splitMarkersLoop.induct)
  case (1 piece)
  show ?case by simp
next
  case (2 piece c cs)
  show ?case
  proof (cases "markerAt (c # cs)")
    case None
    then show ?thesis
      using "2.IH"(1) by simp
  next
    case (Some q)
    obtain ds rest where q: "q = (ds, rest)"
      by (cases q)
    have m: "markerAt (c # cs) = Some (ds, rest)"
      using Some q by simp
    show ?thesis
      using "2.IH"(2) [OF m refl] m markerAt_marker_piece [OF m] by auto
  qed
qed

text \<open>A match that starts in \<open>u\<close> and may go on in \<open>v\<close>.\<close>

lemma markerAt_append_cases:
  assumes "markerAt (u @ v) = Some (ds, rest)" and "u \<noteq> []"
  shows "markerPrefix u \<or> (\<exists>r. markerAt u = Some (ds, r))"
proof -
  note d = markerAt_SomeD [OF assms(1)]
  show ?thesis
  proof (cases "length u \<le> 7")
    case True
    have "u = take (length u) (u @ v)"
      by simp
    also have "\<dots> = take (length u) (js ''[[slnc '' @ ds @ js '']]'' @ rest)"
      using d(1) by simp
    also have "\<dots> = take (length u) (js ''[[slnc '')"
      using True by (simp add: length_marker_open)
    finally show ?thesis
      using True assms(2) by (simp add: markerPrefix_def)
  next
    case False
    then have l: "7 < length u"
      by simp
    have "take 7 u = take 7 (u @ v)"
      using l by simp
    also have "\<dots> = js ''[[slnc ''"
      using d(1) by (simp add: length_marker_open)
    finally have t: "take 7 u = js ''[[slnc ''" .
    define x where "x = drop 7 u"
    have "drop 7 (u @ v) = x @ v"
      using l by (simp add: x_def)
    moreover have "drop 7 (u @ v) = ds @ js '']]'' @ rest"
      using d(1) by (simp add: length_marker_open)
    ultimately have xv: "x @ v = ds @ [93] @ [93] @ rest"
      by (simp add: marker_close)
    have u: "u = js ''[[slnc '' @ x"
      using t by (metis append_take_drop_id x_def)
    consider (a) "length x \<le> length ds" | (b) "length x = Suc (length ds)"
      | (c) "Suc (Suc (length ds)) \<le> length x"
      by linarith
    then show ?thesis
    proof cases
      case a
      have "x = take (length x) (x @ v)"
        by simp
      also have "\<dots> = take (length x) ds"
        using a by (simp add: xv)
      finally have "set x \<subseteq> set ds"
        by (metis set_take_subset)
      then have "\<forall>c\<in>set x. isDigit c"
        using d(3) by auto
      then have "dropWhile isDigit x = []"
        by simp
      then show ?thesis
        using l t assms(2) by (simp add: markerPrefix_def x_def)
    next
      case b
      have "x = take (length x) (x @ v)"
        by simp
      also have "\<dots> = ds @ [93]"
        using b by (simp add: xv)
      finally have x: "x = ds @ [93]" .
      have "takeWhile isDigit x = ds" and "dropWhile isDigit x = [93]"
        using d(3) by (simp_all add: x takeWhile_append2 dropWhile_append2 not_digit_close)
      then show ?thesis
        using l t assms(2) d(2) by (simp add: markerPrefix_def x_def js_def)
    next
      case c
      define n where "n = length x - Suc (Suc (length ds))"
      have lx: "length x = length ds + Suc (Suc n)"
        using c by (simp add: n_def)
      have "x = take (length x) (x @ v)"
        by simp
      also have "\<dots> = take (length ds + Suc (Suc n)) (ds @ [93] @ [93] @ rest)"
        by (simp only: xv lx)
      also have "\<dots> = ds @ [93] @ [93] @ take n rest"
        by simp
      finally have "u = js ''[[slnc '' @ ds @ js '']]'' @ take n rest"
        using u by (simp add: marker_close)
      then have "markerAt u = Some (ds, take n rest)"
        using markerAt_SomeI [OF d(2) d(3)] by simp
      then show ?thesis
        by blast
    qed
  qed
qed

lemma matchMarker_append:
  assumes "matchMarker p = None" and "\<not> endsOpen p" and "matchMarker v = None"
  shows "matchMarker (p @ v) = None"
  using assms
proof (induction p)
  case Nil
  then show ?case by simp
next
  case (Cons c cs)
  have n: "markerAt (c # cs) = None" and t: "matchMarker cs = None"
    using matchMarker_None_Cons [OF Cons.prems(1)] by simp_all
  have "markerAt ((c # cs) @ v) = None"
  proof (cases "markerAt ((c # cs) @ v)")
    case None
    then show ?thesis .
  next
    case (Some q)
    then have "markerAt ((c # cs) @ v) = Some (fst q, snd q)"
      by simp
    then have "markerPrefix (c # cs) \<or> (\<exists>r. markerAt (c # cs) = Some (fst q, r))"
      by (rule markerAt_append_cases) simp
    then show ?thesis
      using n Cons.prems(2) by simp
  qed
  moreover have "matchMarker (cs @ v) = None"
    using t Cons.prems by (intro Cons.IH) simp_all
  ultimately show ?case
    by simp
qed

lemma matchMarker_concat:
  assumes "\<forall>p\<in>set ps. matchMarker p = None" and "\<forall>p\<in>set (butlast ps). \<not> endsOpen p"
  shows "matchMarker (concat ps) = None"
  using assms
proof (induction ps)
  case Nil
  show ?case by simp
next
  case (Cons p ps)
  show ?case
  proof (cases "ps = []")
    case True
    then show ?thesis
      using Cons.prems(1) by simp
  next
    case False
    then have "matchMarker (concat ps) = None"
      using Cons.prems by (intro Cons.IH) simp_all
    then show ?thesis
      using False Cons.prems by (simp add: matchMarker_append)
  qed
qed

lemma cleanText_texts: "cleanText (parseSilenceMarkers s) = concat (textsOf (splitMarkers s))"
  by (simp add: parseSilenceMarkers_def splitMarkers_def removeMarkers_texts)

lemma markerPrefix_iff:
  "markerPrefix u \<longleftrightarrow> u \<noteq> [] \<and> (\<exists>w ds. w \<noteq> [] \<and> markerAt (u @ w) = Some (ds, []))"
proof
  assume mp: "markerPrefix u"
  then have ne: "u \<noteq> []"
    by (simp add: markerPrefix_def)
  have d0: "[48] \<noteq> []" "\<forall>d\<in>set [48]. isDigit d"
    by (simp_all add: isDigit_def)
  have "\<exists>w ds. w \<noteq> [] \<and> markerAt (u @ w) = Some (ds, [])"
  proof (cases "length u \<le> 7")
    case True
    then have u: "u = take (length u) (js ''[[slnc '')"
      using mp by (simp add: markerPrefix_def)
    define w where "w = drop (length u) (js ''[[slnc '') @ [48] @ js '']]''"
    have "u @ w = (take (length u) (js ''[[slnc '') @ drop (length u) (js ''[[slnc '')) @ [48] @ js '']]'' @ []"
      using u by (simp add: w_def)
    then have "u @ w = js ''[[slnc '' @ [48] @ js '']]'' @ []"
      by (simp only: append_take_drop_id)
    then have "markerAt (u @ w) = Some ([48], [])"
      using markerAt_SomeI [OF d0, of "[]"] by simp
    moreover have "w \<noteq> []"
      by (simp add: w_def)
    ultimately show ?thesis
      by blast
  next
    case False
    then have t: "take 7 u = js ''[[slnc ''"
      and c: "dropWhile isDigit (drop 7 u) = [] \<or>
             (takeWhile isDigit (drop 7 u) \<noteq> [] \<and> dropWhile isDigit (drop 7 u) = js '']'')"
      using mp by (simp_all add: markerPrefix_def)
    define x where "x = drop 7 u"
    have u: "u = js ''[[slnc '' @ x"
      using t by (metis append_take_drop_id x_def)
    have xne: "x \<noteq> []"
      using False by (simp add: x_def)
    from c show ?thesis
    proof
      assume "dropWhile isDigit (drop 7 u) = []"
      then have "\<forall>d\<in>set x. isDigit d"
        by (simp add: x_def)
      then have "markerAt (js ''[[slnc '' @ x @ js '']]'' @ []) = Some (x, [])"
        using xne by (intro markerAt_SomeI)
      then have "markerAt (u @ js '']]'') = Some (x, [])"
        by (simp add: u)
      moreover have "js '']]'' \<noteq> []"
        by (simp add: js_def)
      ultimately show ?thesis
        by blast
    next
      assume a: "takeWhile isDigit (drop 7 u) \<noteq> [] \<and> dropWhile isDigit (drop 7 u) = js '']''"
      define ds where "ds = takeWhile isDigit x"
      have "x = takeWhile isDigit x @ dropWhile isDigit x"
        by simp
      then have x: "x = ds @ [93]"
        using a by (simp add: x_def ds_def js_def)
      have "ds \<noteq> []" and "\<forall>d\<in>set ds. isDigit d"
        using a by (auto simp: ds_def x_def dest: set_takeWhileD)
      then have "markerAt (js ''[[slnc '' @ ds @ js '']]'' @ []) = Some (ds, [])"
        by (intro markerAt_SomeI)
      then have "markerAt (u @ [93]) = Some (ds, [])"
        by (simp add: u x marker_close)
      then show ?thesis
        by blast
    qed
  qed
  then show "u \<noteq> [] \<and> (\<exists>w ds. w \<noteq> [] \<and> markerAt (u @ w) = Some (ds, []))"
    using ne by simp
next
  assume a: "u \<noteq> [] \<and> (\<exists>w ds. w \<noteq> [] \<and> markerAt (u @ w) = Some (ds, []))"
  then obtain w ds where w: "w \<noteq> []" and m: "markerAt (u @ w) = Some (ds, [])"
    by blast
  have "markerPrefix u \<or> (\<exists>r. markerAt u = Some (ds, r))"
    using m a by (intro markerAt_append_cases) simp_all
  moreover have "\<not> (\<exists>r. markerAt u = Some (ds, r))"
  proof
    assume "\<exists>r. markerAt u = Some (ds, r)"
    then obtain r where "markerAt u = Some (ds, r)"
      by blast
    then have "markerAt (u @ w) = Some (ds, r @ w)"
      by (rule markerAt_extend)
    then show False
      using m w by simp
  qed
  ultimately show "markerPrefix u"
    by simp
qed

subsection \<open>Silence markers\<close>

text \<open>
  Claim C5, as stated, fails: removing the marker inside \<^verbatim>\<open>[[slnc [[slnc 1]]5]]\<close> leaves
  \<^verbatim>\<open>[[slnc 5]]\<close>, which is a marker.
\<close>

theorem marker_idempotence_counterexample:
  "cleanText (parseSilenceMarkers (js ''[[slnc [[slnc 1]]5]]'')) = js ''[[slnc 5]]''
   \<and> totalSilence (parseSilenceMarkers (cleanText (parseSilenceMarkers (js ''[[slnc [[slnc 1]]5]]''))))
       \<noteq> 0"
  by (simp add: parseSilenceMarkers_def markerAt_def js_def isDigit_def parseInt_def)

lemma counterexample_pieces:
  "textsOf (splitMarkers (js ''[[slnc [[slnc 1]]5]]'')) = [js ''[[slnc '', js ''5]]'']
   \<and> endsOpen (js ''[[slnc '')"
  by (simp add: splitMarkers_def markerAt_def js_def isDigit_def markerPrefix_def)

text \<open>
  Claim C5, amended. The parts of \<open>splitMarkers s\<close> put together are \<open>s\<close>, and \<open>cleanText\<close> is
  its texts (the even positions) put together. For every string \<open>s\<close> in which no text that
  a marker follows ends with a beginning of a marker, \<open>cleanText\<close> has no marker: parsing it
  again yields a total silence of 0 and the same \<open>cleanText\<close>.
\<close>

theorem marker_idempotence:
  "concat (splitMarkers s) = s
   \<and> cleanText (parseSilenceMarkers s) = concat (textsOf (splitMarkers s))
   \<and> ((\<forall>t\<in>set (butlast (textsOf (splitMarkers s))). \<not> endsOpen t) \<longrightarrow>
        matchMarker (cleanText (parseSilenceMarkers s)) = None
        \<and> totalSilence (parseSilenceMarkers (cleanText (parseSilenceMarkers s))) = 0
        \<and> cleanText (parseSilenceMarkers (cleanText (parseSilenceMarkers s)))
            = cleanText (parseSilenceMarkers s))"
proof (intro conjI impI)
  show "concat (splitMarkers s) = s"
    by (simp add: splitMarkers_def concat_splitMarkersLoop)
  show "cleanText (parseSilenceMarkers s) = concat (textsOf (splitMarkers s))"
    by (rule cleanText_texts)
  assume h: "\<forall>t\<in>set (butlast (textsOf (splitMarkers s))). \<not> endsOpen t"
  show m: "matchMarker (cleanText (parseSilenceMarkers s)) = None"
    unfolding cleanText_texts
    using splitMarkers_texts_no_marker h by (rule matchMarker_concat)
  show "totalSilence (parseSilenceMarkers (cleanText (parseSilenceMarkers s))) = 0"
    using m by (simp add: parseSilenceMarkers_def execLoop_no_marker)
  show "cleanText (parseSilenceMarkers (cleanText (parseSilenceMarkers s)))
            = cleanText (parseSilenceMarkers s)"
    using m by (simp add: parseSilenceMarkers_def removeMarkers_no_marker)
qed

lemma split_items:
  "splitMarkers (js ''items[0] changed. [[slnc 500]] Next.'')
   = [js ''items[0] changed. '', js ''[[slnc 500]]'', js '' Next.'']"
  by (simp add: splitMarkers_def markerAt_def js_def isDigit_def)

lemma not_endsOpen_items: "\<not> endsOpen (js ''items[0] changed. '')"
  by (simp add: markerPrefix_def js_def)

theorem marker_idempotence_witness:
  "butlast (textsOf (splitMarkers (js ''items[0] changed. [[slnc 500]] Next.'')))
     = [js ''items[0] changed. '']
   \<and> \<not> endsOpen (js ''items[0] changed. '')
   \<and> totalSilence (parseSilenceMarkers (js ''items[0] changed. [[slnc 500]] Next.'')) = 1 / 2
   \<and> cleanText (parseSilenceMarkers (js ''items[0] changed. [[slnc 500]] Next.''))
       = js ''items[0] changed.  Next.''
   \<and> matchMarker (cleanText (parseSilenceMarkers (js ''items[0] changed. [[slnc 500]] Next.''))) = None
   \<and> totalSilence (parseSilenceMarkers (cleanText
         (parseSilenceMarkers (js ''items[0] changed. [[slnc 500]] Next.'')))) = 0"
proof -
  have b: "butlast (textsOf (splitMarkers (js ''items[0] changed. [[slnc 500]] Next.'')))
     = [js ''items[0] changed. '']"
    by (simp add: split_items)
  have h: "\<forall>t\<in>set (butlast (textsOf (splitMarkers (js ''items[0] changed. [[slnc 500]] Next.'')))).
      \<not> endsOpen t"
    unfolding b using not_endsOpen_items by simp
  have t: "totalSilence (parseSilenceMarkers (js ''items[0] changed. [[slnc 500]] Next.'')) = 1 / 2"
    by (simp add: parseSilenceMarkers_def markerAt_def js_def isDigit_def parseInt_def)
  have c: "cleanText (parseSilenceMarkers (js ''items[0] changed. [[slnc 500]] Next.''))
       = js ''items[0] changed.  Next.''"
    by (simp add: parseSilenceMarkers_def markerAt_def js_def isDigit_def)
  have r: "matchMarker (cleanText (parseSilenceMarkers (js ''items[0] changed. [[slnc 500]] Next.''))) = None"
    and z: "totalSilence (parseSilenceMarkers (cleanText
         (parseSilenceMarkers (js ''items[0] changed. [[slnc 500]] Next.'')))) = 0"
    using marker_idempotence [of "js ''items[0] changed. [[slnc 500]] Next.''"] h
    by blast+
  show ?thesis
    by (intro conjI) (fact b, fact not_endsOpen_items, fact t, fact c, fact r, fact z)
qed

subsection \<open>Timing segments\<close>

lemma segmentLoop_append:
  "segmentLoop st parts t acc = acc @ segmentLoop st parts t []"
proof (induction parts arbitrary: t acc)
  case Nil
  show ?case by simp
next
  case (Cons part parts)
  show ?case
  proof (cases "matchMarker part")
    case (Some ds)
    then show ?thesis
      using Cons.IH [of _ "acc @ [_]"] Cons.IH [of _ "[_]"]
      by (simp add: Let_def)
  next
    case None
    then show ?thesis
      using Cons.IH [of _ "acc @ [_]"] Cons.IH [of _ "[_]"] Cons.IH [of t acc]
      by (simp add: Let_def)
  qed
qed

lemma timelineFrom_segmentLoop: "timelineFrom t (segmentLoop st parts t [])"
proof (induction parts arbitrary: t)
  case Nil
  show ?case by simp
next
  case (Cons part parts)
  show ?case
  proof (cases "matchMarker part")
    case (Some ds)
    then show ?thesis
      using Cons.IH segmentLoop_append [of st parts _ "[_]"]
      by (simp add: Let_def)
  next
    case None
    then show ?thesis
      using Cons.IH segmentLoop_append [of st parts _ "[_]"]
      by (simp add: Let_def)
  qed
qed

lemma timelineFrom_nth:
  "timelineFrom t segs \<Longrightarrow> i + 1 < length segs \<Longrightarrow>
   startTime (segs ! (i + 1)) = startTime (segs ! i) + duration (segs ! i)"
proof (induction segs arbitrary: t i)
  case Nil
  then show ?case by simp
next
  case (Cons s ss)
  show ?case
  proof (cases i)
    case 0
    then show ?thesis
      using Cons.prems by (cases ss) simp_all
  next
    case (Suc j)
    then show ?thesis
      using Cons.prems Cons.IH [of "t + duration s" j] by simp
  qed
qed

lemma timelineFrom_first: "timelineFrom t segs \<Longrightarrow> segs \<noteq> [] \<Longrightarrow> startTime (segs ! 0) = t"
  by (cases segs) simp_all


lemma timelineFrom_createTimingSegments: "timelineFrom 0 (createTimingSegments narr st)"
  by (simp add: createTimingSegments_def timelineFrom_segmentLoop)












text \<open>The segments of two narratives, evaluated.\<close>

lemma segments_scenarioA: "createTimingSegments (js ''Hello world. [[slnc 500]] Next part here.'') Technical =
  [\<lparr>segText = js ''Hello world.'', startTime = 0, duration = 2\<rparr>,
   \<lparr>segText = [], startTime = 2, duration = 1 / 2\<rparr>,
   \<lparr>segText = js ''Next part here.'', startTime = 5 / 2, duration = 2\<rparr>]"
  by (simp add: createTimingSegments_def splitMarkers_def markerAt_def js_def isDigit_def
      Let_def parseInt_def trim_def isWhiteSpace_def calculateSpeakingDuration_eq wordCount_def
      splitWs_def wpm_def)


lemma segments_scenarioC: "createTimingSegments (js ''a [[slnc 1500]] b [[slnc 1500]] c [[slnc 1000]]'') Technical =
  [\<lparr>segText = js ''a'', startTime = 0, duration = 2\<rparr>,
   \<lparr>segText = [], startTime = 2, duration = 3 / 2\<rparr>,
   \<lparr>segText = js ''b'', startTime = 7 / 2, duration = 2\<rparr>,
   \<lparr>segText = [], startTime = 11 / 2, duration = 3 / 2\<rparr>,
   \<lparr>segText = js ''c'', startTime = 7, duration = 2\<rparr>,
   \<lparr>segText = [], startTime = 9, duration = 1\<rparr>]"
  by (simp add: createTimingSegments_def splitMarkers_def markerAt_def js_def isDigit_def
      Let_def parseInt_def trim_def isWhiteSpace_def calculateSpeakingDuration_eq wordCount_def
      splitWs_def wpm_def)

text \<open>
  Claim C6. For every narrative and style, each segment returned by
  \<open>createTimingSegments\<close> starts where the segment before it ends, and the first
  segment, when there is one, starts at 0.
\<close>

theorem segment_timeline_continuity:
  "(\<forall>i. i + 1 < length (createTimingSegments narr st) \<longrightarrow>
      startTime (createTimingSegments narr st ! (i + 1)) =
      startTime (createTimingSegments narr st ! i) + duration (createTimingSegments narr st ! i))
   \<and> (createTimingSegments narr st \<noteq> [] \<longrightarrow> startTime (createTimingSegments narr st ! 0) = 0)"
  using timelineFrom_createTimingSegments [of narr st]
  by (auto dest: timelineFrom_nth timelineFrom_first)

theorem segment_timeline_continuity_witness:
  "createTimingSegments (js ''Hello world. [[slnc 500]] Next part here.'') Technical \<noteq> []
   \<and> startTime (createTimingSegments (js ''Hello world. [[slnc 500]] Next part here.'') Technical ! 0) = 0
   \<and> 1 + 1 < length (createTimingSegments (js ''Hello world. [[slnc 500]] Next part here.'') Technical)
   \<and> startTime (createTimingSegments (js ''Hello world. [[slnc 500]] Next part here.'') Technical ! (1 + 1))
       = startTime (createTimingSegments (js ''Hello world. [[slnc 500]] Next part here.'') Technical ! 1)
         + duration (createTimingSegments (js ''Hello world. [[slnc 500]] Next part here.'') Technical ! 1)"
  using segment_timeline_continuity [of "js ''Hello world. [[slnc 500]] Next part here.''" Technical]
  by (simp add: segments_scenarioA)

lemma createTimingSegments_plain:
  assumes "matchMarker narr = None" and "trim narr \<noteq> []"
  shows "createTimingSegments narr st =
    [\<lparr>segText = trim narr, startTime = 0, duration = calculateSpeakingDuration narr st\<rparr>]"
  using assms
  by (simp add: createTimingSegments_def splitMarkers_def splitMarkersLoop_no_marker Let_def)

lemma calculateTotalDuration_plain:
  assumes "matchMarker narr = None"
  shows "calculateTotalDuration narr st = calculateSpeakingDuration narr st"
  using assms
  by (simp add: calculateTotalDuration_def parseSilenceMarkers_def Let_def
      removeMarkers_no_marker execLoop_no_marker)







lemma whitespace_no_bracket: "\<forall>c\<in>set s. isWhiteSpace c \<Longrightarrow> 91 \<notin> set s"
  by (auto simp: isWhiteSpace_def)

lemma trim_whitespace: "\<forall>c\<in>set s. isWhiteSpace c \<Longrightarrow> trim s = []"
proof -
  assume "\<forall>c\<in>set s. isWhiteSpace c"
  then have "dropWhile isWhiteSpace s = []"
    by (simp only: dropWhile_eq_Nil_conv)
  then show ?thesis
    by (simp add: trim_def del: dropWhile_eq_Nil_conv)
qed

lemma createTimingSegments_blank:
  assumes "\<forall>c\<in>set narr. isWhiteSpace c"
  shows "createTimingSegments narr st = []"
proof -
  have m: "matchMarker narr = None"
    using assms by (intro matchMarker_no_bracket whitespace_no_bracket)
  show ?thesis
    using assms by (simp add: createTimingSegments_def splitMarkers_def splitMarkersLoop_no_marker m
      trim_whitespace)
qed

lemma calculateTotalDuration_blank:
  assumes "\<forall>c\<in>set narr. isWhiteSpace c"
  shows "calculateTotalDuration narr st = 2"
proof -
  have m: "matchMarker narr = None"
    using assms by (intro matchMarker_no_bracket whitespace_no_bracket)
  have "trim narr = []"
    using assms by (rule trim_whitespace)
  then have "wordCount narr = 1"
    by (simp add: wordCount_def splitWs_def)
  then have "calculateSpeakingDuration narr st = 2"
    by (cases st) (simp_all add: calculateSpeakingDuration_eq wpm_def)
  then show ?thesis
    by (simp add: calculateTotalDuration_plain m)
qed

subsection \<open>Frame durations\<close>

declare evenLoop.simps [simp del]
declare groupLoop.simps [simp del]

lemma evenLoop_replicate:
  "evenLoop i frameCount d acc = acc @ replicate (frameCount - i) d"
proof (induction i frameCount d acc rule: evenLoop.induct)
  case (1 i frameCount d acc)
  show ?case
  proof (cases "i < frameCount")
    case True
    then have "frameCount - i = Suc (frameCount - (i + 1))"
      by simp
    then show ?thesis
      using True "1.IH" by (subst evenLoop.simps) (simp add: replicate_app_Cons_same)
  next
    case False
    then show ?thesis
      by (subst evenLoop.simps) simp
  qed
qed

lemma groupLoop_map:
  "groupLoop i frameCount spf segs acc = acc @ map (groupDuration spf segs) [i..<frameCount]"
proof (induction i frameCount spf segs acc rule: groupLoop.induct)
  case (1 i frameCount spf segs acc)
  show ?case
  proof (cases "i < frameCount")
    case True
    then show ?thesis
      using "1.IH" [OF True refl refl refl refl]
      by (subst groupLoop.simps) (simp add: Let_def upt_conv_Cons groupDuration_def)
  next
    case False
    then show ?thesis
      by (subst groupLoop.simps) simp
  qed
qed

text \<open>
  Claim C1. For every frame count and every list of segments, the list returned by
  \<open>calculateFrameDurations\<close> has exactly \<open>frameCount\<close> entries.
\<close>

theorem frame_count_invariant:
  "length (calculateFrameDurations frameCount segs) = frameCount"
  by (simp add: calculateFrameDurations_def Let_def evenLoop_replicate groupLoop_map)

lemma foldl_duration:
  "foldl (\<lambda>sum seg. sum + duration seg) a segs = a + sum_list (map duration segs)"
  by (induction segs arbitrary: a) simp_all

lemma sumDurations_sum_list: "sumDurations segs = sum_list (map duration segs)"
  by (simp add: sumDurations_def foldl_duration)

lemma slice_min: "slice xs a (min b (length xs)) = take (b - a) (drop a xs)"
proof -
  have "take (min b (length xs)) xs = take b xs"
    by (simp add: min_def)
  then show ?thesis
    by (simp add: slice_def drop_take)
qed

lemma take_Suc_group:
  "take (Suc k * spf) xs = take (k * spf) xs @ take spf (drop (k * spf) xs)"
proof -
  have "Suc k * spf = k * spf + spf"
    by simp
  then show ?thesis
    by (simp only: take_add)
qed

lemma groups_sum:
  "sum_list (map (groupDuration spf segs) [0..<n]) = sum_list (map duration (take (n * spf) segs))"
proof (induction n)
  case 0
  show ?case by simp
next
  case (Suc n)
  have "sum_list (map duration (take (Suc n * spf) segs)) =
        sum_list (map duration (take (n * spf) segs))
        + sum_list (map duration (take spf (drop (n * spf) segs)))"
    by (simp only: take_Suc_group map_append sum_list_append)
  then show ?case
    using Suc by (simp add: groupDuration_def slice_min sumDurations_sum_list)
qed

lemma ceil_cover:
  assumes "0 < n"
  shows "len \<le> n * nat \<lceil>real len / real n\<rceil>"
proof -
  have "real len = real len / real n * real n"
    using assms by simp
  also have "\<dots> \<le> real_of_int \<lceil>real len / real n\<rceil> * real n"
    by (intro mult_right_mono le_of_int_ceiling) simp
  also have "\<dots> = real (nat \<lceil>real len / real n\<rceil>) * real n"
  proof -
    have "0 \<le> real len / real n"
      by simp
    then have "- 1 < real len / real n"
      by linarith
    then have "0 \<le> \<lceil>real len / real n\<rceil>"
      by (simp only: zero_le_ceiling)
    then show ?thesis
      by simp
  qed
  finally have "real len \<le> real (n * nat \<lceil>real len / real n\<rceil>)"
    by (simp add: mult.commute)
  then show ?thesis
    by (simp only: of_nat_le_iff)
qed

text \<open>
  Claim C3. For every frame count of at least one and every non-empty list of segments,
  the frame durations sum to the sum of the segment durations, whether there are more
  frames than segments or not. (Exact arithmetic; the tolerance of the claim covers the
  rounding of doubles.)
\<close>

theorem duration_conservation:
  assumes "1 \<le> frameCount" and "segs \<noteq> []"
  shows "sum_list (calculateFrameDurations frameCount segs) = sum_list (map duration segs)"
proof (cases "frameCount > length segs")
  case True
  then show ?thesis
    using assms
    by (simp add: calculateFrameDurations_def Let_def evenLoop_replicate sum_list_replicate
        sumDurations_sum_list)
next
  case False
  have "length segs \<le> frameCount * nat \<lceil>real (length segs) / real frameCount\<rceil>"
    using assms by (intro ceil_cover) simp
  then show ?thesis
    using False assms
    by (simp add: calculateFrameDurations_def Let_def groupLoop_map groups_sum)
qed

theorem duration_conservation_witness:
  "(1::nat) \<le> 2
   \<and> createTimingSegments (js ''a [[slnc 1500]] b [[slnc 1500]] c [[slnc 1000]]'') Technical \<noteq> []
   \<and> calculateFrameDurations 2
        (createTimingSegments (js ''a [[slnc 1500]] b [[slnc 1500]] c [[slnc 1000]]'') Technical)
       = [11 / 2, 9 / 2]
   \<and> sum_list (calculateFrameDurations 2
        (createTimingSegments (js ''a [[slnc 1500]] b [[slnc 1500]] c [[slnc 1000]]'') Technical))
       = 10
   \<and> sum_list (calculateFrameDurations 7
        (createTimingSegments (js ''a [[slnc 1500]] b [[slnc 1500]] c [[slnc 1000]]'') Technical))
       = 10"
proof -
  have h1: "(1::nat) \<le> 2" and h1': "(1::nat) \<le> 7"
    by simp_all
  have h2: "createTimingSegments (js ''a [[slnc 1500]] b [[slnc 1500]] c [[slnc 1000]]'') Technical \<noteq> []"
    by (simp add: segments_scenarioC)
  have g: "calculateFrameDurations 2
        (createTimingSegments (js ''a [[slnc 1500]] b [[slnc 1500]] c [[slnc 1000]]'') Technical)
       = [11 / 2, 9 / 2]"
    by (simp add: segments_scenarioC calculateFrameDurations_def groupLoop_map groupDuration_def
        sumDurations_def slice_def numeral_eq_Suc)
  show ?thesis
    using h2 g duration_conservation [OF h1 h2] duration_conservation [OF h1' h2]
    by (simp add: segments_scenarioC)
qed

text \<open>
  Claim C2 says that every frame duration is strictly positive when the frame count is at
  least one and every segment has a positive duration. The code at five such segments and
  four frames: the groups have \<open>\<lceil>5 / 4\<rceil> = 2\<close> segments each, the first three frames take
  all five segments, and the fourth frame gets the empty slice and the duration 0.
\<close>

theorem zero_duration_frame:
  "createTimingSegments (js ''a [[slnc 500]] b [[slnc 500]] c'') Technical =
     [\<lparr>segText = js ''a'', startTime = 0, duration = 2\<rparr>,
      \<lparr>segText = [], startTime = 2, duration = 1 / 2\<rparr>,
      \<lparr>segText = js ''b'', startTime = 5 / 2, duration = 2\<rparr>,
      \<lparr>segText = [], startTime = 9 / 2, duration = 1 / 2\<rparr>,
      \<lparr>segText = js ''c'', startTime = 5, duration = 2\<rparr>]
   \<and> calculateFrameDurations 4 (createTimingSegments (js ''a [[slnc 500]] b [[slnc 500]] c'') Technical)
       = [5 / 2, 5 / 2, 2, 0]"
proof -
  have s: "createTimingSegments (js ''a [[slnc 500]] b [[slnc 500]] c'') Technical =
     [\<lparr>segText = js ''a'', startTime = 0, duration = 2\<rparr>,
      \<lparr>segText = [], startTime = 2, duration = 1 / 2\<rparr>,
      \<lparr>segText = js ''b'', startTime = 5 / 2, duration = 2\<rparr>,
      \<lparr>segText = [], startTime = 9 / 2, duration = 1 / 2\<rparr>,
      \<lparr>segText = js ''c'', startTime = 5, duration = 2\<rparr>]"
    by (simp add: createTimingSegments_def splitMarkers_def markerAt_def js_def isDigit_def
      Let_def parseInt_def trim_def isWhiteSpace_def calculateSpeakingDuration_eq wordCount_def
      splitWs_def wpm_def)
  show ?thesis
    unfolding s
    by (simp add: calculateFrameDurations_def groupLoop_map groupDuration_def
        sumDurations_def slice_def numeral_eq_Suc)
qed

subsection \<open>The audio and timing steps\<close>

lemma defaultDurations_three: "defaultDurations 3 = [3, 5, 3]"
  by (simp add: defaultDurations_def numeral_eq_Suc)

lemma audioStep_failed:
  assumes "isl tts \<or> isl stat \<or> stat = Inr 0"
  shows "hasAudio (audioStep tts stat narr st) = False"
proof (cases tts)
  case (Inl e)
  then show ?thesis
    by (simp add: audioStep_def generateAudio_def)
next
  case (Inr u)
  then have "isl stat \<or> stat = Inr 0"
    using assms by simp
  then have "\<not> validateAudio stat"
    by (cases stat) (auto simp: validateAudio_def)
  then show ?thesis
    using Inr by (simp add: audioStep_def generateAudio_def)
qed

text \<open>
  Claim C7. When the speech synthesis throws, or the audio file is missing or has size 0,
  the audio step ends with \<open>hasAudio\<close> false (it has no error result), and the timing step
  gives 3 seconds to the first and to the last frame and 5 seconds to every frame between
  them; three frames get \<open>[3, 5, 3]\<close>.
\<close>

theorem silent_fallback:
  assumes "isl tts \<or> isl stat \<or> stat = Inr 0"
  shows "hasAudio (audioStep tts stat narr st) = False
       \<and> timingStep (audioStep tts stat narr st) n narr st
           = map (\<lambda>i. if i = 0 \<or> i + 1 = n then 3 else 5) [0..<n]
       \<and> timingStep (audioStep tts stat narr st) 3 narr st = [3, 5, 3]"
proof -
  have h: "hasAudio (audioStep tts stat narr st) = False"
    using assms by (rule audioStep_failed)
  have d: "defaultDurations n = map (\<lambda>i. if i = 0 \<or> i + 1 = n then 3 else 5) [0..<n]"
    unfolding defaultDurations_def by (rule map_cong) auto
  show ?thesis
    by (simp add: h timingStep_def d defaultDurations_three)
qed

theorem silent_fallback_witness:
  "(isl (Inl SynthesisFailed :: error + unit) \<or> isl (Inr 0 :: error + nat) \<or> (Inr 0 :: error + nat) = Inr 0)
   \<and> hasAudio (audioStep (Inl SynthesisFailed) (Inr 0) (js ''Hello world.'') Technical) = False
   \<and> timingStep (audioStep (Inl SynthesisFailed) (Inr 0) (js ''Hello world.'') Technical) 3
        (js ''Hello world.'') Technical = [3, 5, 3]
   \<and> hasAudio (audioStep (Inr ()) (Inl FileMissing) (js ''Hello world.'') Technical) = False
   \<and> timingStep (audioStep (Inr ()) (Inl FileMissing) (js ''Hello world.'') Technical) 3
        (js ''Hello world.'') Technical = [3, 5, 3]"
proof -
  have h1: "isl (Inl SynthesisFailed :: error + unit) \<or> isl (Inr 0 :: error + nat)
      \<or> (Inr 0 :: error + nat) = Inr 0"
    by simp
  have h2: "isl (Inr () :: error + unit) \<or> isl (Inl FileMissing :: error + nat)
      \<or> (Inl FileMissing :: error + nat) = Inr 0"
    by simp
  show ?thesis
    using h1 silent_fallback [OF h1, of "js ''Hello world.''" Technical 3]
      silent_fallback [OF h2, of "js ''Hello world.''" Technical 3]
    by (simp add: numeral_eq_Suc)
qed

text \<open>
  Claim C10. For every style and every narrative made of white space only (the empty
  string included), \<open>createTimingSegments\<close> returns the empty list, so
  \<open>calculateFrameDurations\<close> gives 3 seconds to each frame; and the timing step does so
  even when the synthesis succeeded and the audio file is not empty.
\<close>

theorem blank_narrative:
  assumes "\<forall>c\<in>set narr. isWhiteSpace c" and "0 < sz"
  shows "createTimingSegments narr st = []
       \<and> calculateFrameDurations frameCount (createTimingSegments narr st) = replicate frameCount 3
       \<and> hasAudio (audioStep (Inr ()) (Inr sz) narr st)
       \<and> timingStep (audioStep (Inr ()) (Inr sz) narr st) frameCount narr st = replicate frameCount 3"
proof -
  have s: "createTimingSegments narr st = []"
    using assms(1) by (rule createTimingSegments_blank)
  have f: "calculateFrameDurations frameCount [] = replicate frameCount 3"
    by (simp add: calculateFrameDurations_def)
  have a: "audioStep (Inr ()) (Inr sz) narr st = \<lparr>audioDuration = 2, hasAudio = True\<rparr>"
    using assms by (simp add: audioStep_def generateAudio_def validateAudio_def calculateTotalDuration_blank)
  show ?thesis
    by (simp add: s f a timingStep_def)
qed

theorem blank_narrative_witness:
  "js '' '' = [32] \<and> isWhiteSpace 32 \<and> (0::nat) < 1
   \<and> createTimingSegments (js '' '') Technical = []
   \<and> createTimingSegments [] Technical = []
   \<and> timingStep (audioStep (Inr ()) (Inr 1) (js '' '') Technical) 3 (js '' '') Technical = [3, 3, 3]"
proof -
  have j: "js '' '' = [32]"
    by (simp add: js_def)
  have w: "isWhiteSpace 32"
    by (simp add: isWhiteSpace_def)
  have h1: "\<forall>c\<in>set (js '' ''). isWhiteSpace c"
    by (simp add: j w)
  have h0: "\<forall>c\<in>set ([]::jsstring). isWhiteSpace c"
    by simp
  have h2: "(0::nat) < 1"
    by simp
  have r: "replicate 3 (3::real) = [3, 3, 3]"
    by (simp add: numeral_eq_Suc)
  show ?thesis
    using j w blank_narrative [OF h1 h2, of Technical 3] blank_narrative [OF h0 h2, of Technical 3]
    by (simp only: r simp_thms)
qed

end
